theory Spec2Isabelle
  imports Main
begin

section \<open>Strings and the built-in string operations the editor relies on\<close>

text \<open>
  The editor keeps every buffer as one JavaScript string. A string is modelled as a list
  of characters, an offset into it as a natural number, and an offset that may be negative
  or the not-found marker \<open>-1\<close> as an integer. The model covers ASCII text: only the
  letters \<open>A\<close> to \<open>Z\<close> have a lower-case form, and lower-casing keeps the length of a
  string.
\<close>

definition isWordChar :: "char \<Rightarrow> bool" where
  \<comment> \<open>\<open>const isWordChar = (char) => /\w/.test(char)\<close>: a letter, a digit or the underscore.\<close>
  "isWordChar c =
     (let n = (of_char c :: nat)
      in (48 \<le> n \<and> n \<le> 57) \<or> (65 \<le> n \<and> n \<le> 90) \<or> n = 95 \<or> (97 \<le> n \<and> n \<le> 122))"

definition toLowerChar :: "char \<Rightarrow> char" where
  "toLowerChar c =
     (let n = (of_char c :: nat) in if 65 \<le> n \<and> n \<le> 90 then char_of (n + 32) else c)"

definition toUpperChar :: "char \<Rightarrow> char" where
  "toUpperChar c =
     (let n = (of_char c :: nat) in if 97 \<le> n \<and> n \<le> 122 then char_of (n - 32) else c)"

definition toLowerCase :: "string \<Rightarrow> string" where
  "toLowerCase s = map toLowerChar s"

definition occursAt :: "string \<Rightarrow> string \<Rightarrow> nat \<Rightarrow> bool" where
  \<comment> \<open>the characters of \<open>s\<close> from offset \<open>k\<close> on spell \<open>pat\<close>, all of them inside \<open>s\<close>\<close>
  "occursAt s pat k \<longleftrightarrow> k + length pat \<le> length s \<and> take (length pat) (drop k s) = pat"

definition firstFrom :: "(nat \<Rightarrow> bool) \<Rightarrow> nat \<Rightarrow> nat \<Rightarrow> nat option" where
  \<comment> \<open>a left-to-right scan: the first offset among \<open>a, ..., n\<close> that satisfies \<open>P\<close>\<close>
  "firstFrom P a n = find P [a ..< Suc n]"

definition lastUpTo :: "(nat \<Rightarrow> bool) \<Rightarrow> nat \<Rightarrow> nat option" where
  \<comment> \<open>a right-to-left scan: the last offset among \<open>0, ..., n\<close> that satisfies \<open>P\<close>\<close>
  "lastUpTo P n = find P (rev [0 ..< Suc n])"

lemma firstFrom_Some_iff:
  "firstFrom P a n = Some k \<longleftrightarrow> a \<le> k \<and> k \<le> n \<and> P k \<and> (\<forall>j. a \<le> j \<and> j < k \<longrightarrow> \<not> P j)"
proof
  assume "firstFrom P a n = Some k"
  then obtain i where i: "i < length [a ..< Suc n]" "P ([a ..< Suc n] ! i)" "k = [a ..< Suc n] ! i"
      "\<forall>j<i. \<not> P ([a ..< Suc n] ! j)"
    unfolding firstFrom_def find_Some_iff by blast
  from i(1) have ia: "a + i < Suc n" by (simp del: upt_Suc)
  then have k: "k = a + i" using i(3) by (simp del: upt_Suc)
  have "\<not> P j" if "a \<le> j" "j < k" for j
  proof -
    from that k have "j - a < i" by arith
    moreover have "[a ..< Suc n] ! (j - a) = j" using that k ia by (simp del: upt_Suc)
    ultimately show ?thesis using i(4) by metis
  qed
  moreover have "P k" using i(2) k ia by (simp del: upt_Suc)
  ultimately show "a \<le> k \<and> k \<le> n \<and> P k \<and> (\<forall>j. a \<le> j \<and> j < k \<longrightarrow> \<not> P j)"
    using k ia by auto
next
  assume r: "a \<le> k \<and> k \<le> n \<and> P k \<and> (\<forall>j. a \<le> j \<and> j < k \<longrightarrow> \<not> P j)"
  then have len: "k - a < length [a ..< Suc n]" by (simp del: upt_Suc) arith
  have nth: "[a ..< Suc n] ! j = a + j" if "j \<le> k - a" for j
  proof -
    from that r have "a + j < Suc n" by arith
    then show ?thesis by (rule nth_upt)
  qed
  have "P ([a ..< Suc n] ! (k - a))" using r nth [of "k - a"] by simp
  moreover have "k = [a ..< Suc n] ! (k - a)" using r nth [of "k - a"] by simp
  moreover have "\<forall>j<k - a. \<not> P ([a ..< Suc n] ! j)"
  proof (intro allI impI)
    fix j assume "j < k - a"
    then have "[a ..< Suc n] ! j = a + j" "a \<le> a + j" "a + j < k" using nth [of j] by auto
    then show "\<not> P ([a ..< Suc n] ! j)" using r by metis
  qed
  ultimately show "firstFrom P a n = Some k"
    unfolding firstFrom_def find_Some_iff using len by blast
qed

lemma firstFrom_None_iff:
  "firstFrom P a n = None \<longleftrightarrow> (\<forall>j. a \<le> j \<and> j \<le> n \<longrightarrow> \<not> P j)"
  unfolding firstFrom_def find_None_iff by (simp only: set_upt) auto

lemma lastUpTo_Some_iff:
  "lastUpTo P n = Some k \<longleftrightarrow> k \<le> n \<and> P k \<and> (\<forall>j. k < j \<and> j \<le> n \<longrightarrow> \<not> P j)"
proof
  assume "lastUpTo P n = Some k"
  then obtain i where i: "i < Suc n" "P (rev [0 ..< Suc n] ! i)" "k = rev [0 ..< Suc n] ! i"
      "\<forall>j<i. \<not> P (rev [0 ..< Suc n] ! j)"
    unfolding lastUpTo_def find_Some_iff by (auto simp only: length_rev length_upt diff_zero)
  have nth: "rev [0 ..< Suc n] ! j = n - j" if "j < Suc n" for j
    using that by (simp del: upt_Suc add: rev_nth)
  have k: "k = n - i" using i(1,3) nth by simp
  have "\<not> P j" if "k < j" "j \<le> n" for j
  proof -
    from that k i(1) have "n - j < i" "n - j < Suc n" "n - (n - j) = j" by arith+
    then show ?thesis using i(4) nth [of "n - j"] by metis
  qed
  moreover have "P k" using i(1,2) nth k by simp
  ultimately show "k \<le> n \<and> P k \<and> (\<forall>j. k < j \<and> j \<le> n \<longrightarrow> \<not> P j)" using k by auto
next
  assume r: "k \<le> n \<and> P k \<and> (\<forall>j. k < j \<and> j \<le> n \<longrightarrow> \<not> P j)"
  have nth: "rev [0 ..< Suc n] ! j = n - j" if "j < Suc n" for j
    using that by (simp del: upt_Suc add: rev_nth)
  have len: "n - k < length (rev [0 ..< Suc n])" by (simp del: upt_Suc)
  have "P (rev [0 ..< Suc n] ! (n - k))" "k = rev [0 ..< Suc n] ! (n - k)"
    using r nth [of "n - k"] by auto
  moreover have "\<forall>j<n - k. \<not> P (rev [0 ..< Suc n] ! j)"
  proof (intro allI impI)
    fix j assume j: "j < n - k"
    then have "rev [0 ..< Suc n] ! j = n - j" "k < n - j" "n - j \<le> n" using nth [of j] by auto
    then show "\<not> P (rev [0 ..< Suc n] ! j)" using r by metis
  qed
  ultimately show "lastUpTo P n = Some k"
    unfolding lastUpTo_def find_Some_iff using len by blast
qed

lemma lastUpTo_None_iff: "lastUpTo P n = None \<longleftrightarrow> (\<forall>j. j \<le> n \<longrightarrow> \<not> P j)"
  unfolding lastUpTo_def find_None_iff by (simp only: set_rev set_upt) auto

definition clampPos :: "int \<Rightarrow> nat \<Rightarrow> nat" where
  \<comment> \<open>how \<open>indexOf\<close> and \<open>substring\<close> read a position: below 0 is 0, beyond the end is the end\<close>
  "clampPos pos n = min (nat pos) n"

definition indexOf :: "string \<Rightarrow> string \<Rightarrow> int \<Rightarrow> int" where
  \<comment> \<open>\<open>s.indexOf(pat, pos)\<close>: the first offset at or after the clamped \<open>pos\<close>, or \<open>-1\<close>\<close>
  "indexOf s pat pos =
     (case firstFrom (occursAt s pat) (clampPos pos (length s)) (length s) of
        None \<Rightarrow> - 1
      | Some k \<Rightarrow> int k)"

definition lastIndexOf :: "string \<Rightarrow> string \<Rightarrow> int" where
  \<comment> \<open>\<open>s.lastIndexOf(pat)\<close>: the last offset of \<open>pat\<close> in \<open>s\<close>, or \<open>-1\<close>\<close>
  "lastIndexOf s pat =
     (case lastUpTo (occursAt s pat) (length s) of
        None \<Rightarrow> - 1
      | Some k \<Rightarrow> int k)"

definition includes_str :: "string \<Rightarrow> string \<Rightarrow> bool" where
  \<comment> \<open>\<open>s.includes(pat)\<close>\<close>
  "includes_str s pat \<longleftrightarrow> indexOf s pat 0 \<noteq> - 1"

definition substring :: "string \<Rightarrow> int \<Rightarrow> int \<Rightarrow> string" where
  \<comment> \<open>\<open>s.substring(a, b)\<close>: both ends clamped, and swapped when \<open>a\<close> is the larger\<close>
  "substring s a b =
     (let i = clampPos a (length s); j = clampPos b (length s)
      in take (max i j - min i j) (drop (min i j) s))"

definition substringFrom :: "string \<Rightarrow> int \<Rightarrow> string" where
  \<comment> \<open>\<open>s.substring(a)\<close>: from the clamped \<open>a\<close> to the end\<close>
  "substringFrom s a = drop (clampPos a (length s)) s"

function split_str :: "string \<Rightarrow> string \<Rightarrow> string list" where
  \<comment> \<open>\<open>s.split(sep)\<close> with a string separator: cut at each occurrence, left to right, resuming
     after the separator; an empty separator cuts between all characters\<close>
  "split_str s sep =
     (if sep = [] then map (\<lambda>c. [c]) s
      else (case firstFrom (occursAt s sep) 0 (length s) of
              None \<Rightarrow> [s]
            | Some k \<Rightarrow> take k s # split_str (drop (k + length sep) s) sep))"
  by pat_completeness auto
termination
proof (relation "measure (\<lambda>(s, sep). length s)")
  show "wf (measure (\<lambda>(s, sep). length s))" by simp
next
  fix s sep :: string and k :: nat
  assume sep: "sep \<noteq> []" and k: "firstFrom (occursAt s sep) 0 (length s) = Some k"
  from k have "occursAt s sep k" by (simp add: firstFrom_Some_iff)
  then have "k + length sep \<le> length s" by (simp add: occursAt_def)
  with sep show "((drop (k + length sep) s, sep), (s, sep)) \<in> measure (\<lambda>(s, sep). length s)"
    by (cases sep) auto
qed

declare split_str.simps [simp del]

fun join_str :: "string list \<Rightarrow> string \<Rightarrow> string" where
  \<comment> \<open>\<open>parts.join(r)\<close>\<close>
  "join_str [] r = []"
| "join_str [p] r = p"
| "join_str (p # q # ps) r = p @ r @ join_str (q # ps) r"

section \<open>The regular expressions the editor builds\<close>

text \<open>
  Every regular expression of the search code is the search term with its metacharacters
  escaped (\<open>searchTerm.replace(/[.*+?^${}()|[\]\\]/g, '\\$&')\<close>), so it matches the
  term literally, optionally between two \<open>\b\<close> assertions and optionally with the flag
  \<open>i\<close>. The definitions below give the meaning of exactly these expressions: whether one
  matches at an offset, \<open>regex.test\<close>, and the number of matches \<open>s.match(regex)\<close>
  collects under the flag \<open>g\<close>.
\<close>

definition wordBoundary :: "string \<Rightarrow> nat \<Rightarrow> bool" where
  \<comment> \<open>\<open>\b\<close> at offset \<open>p\<close>: exactly one of the characters left and right of \<open>p\<close> is a word
     character, a missing character counting as none\<close>
  "wordBoundary s p \<longleftrightarrow>
     (0 < p \<and> p \<le> length s \<and> isWordChar (s ! (p - 1))) \<noteq> (p < length s \<and> isWordChar (s ! p))"

definition regexLiteralAt :: "bool \<Rightarrow> string \<Rightarrow> string \<Rightarrow> nat \<Rightarrow> bool" where
  \<comment> \<open>the escaped term matches at offset \<open>k\<close>; under the flag \<open>i\<close> characters are compared
     after canonicalisation, which upper-cases them\<close>
  "regexLiteralAt ignoreCase s lit k \<longleftrightarrow>
     k + length lit \<le> length s \<and>
     (if ignoreCase
      then map toUpperChar (take (length lit) (drop k s)) = map toUpperChar lit
      else take (length lit) (drop k s) = lit)"

definition wholeWordRegexAt :: "bool \<Rightarrow> string \<Rightarrow> string \<Rightarrow> nat \<Rightarrow> bool" where
  \<comment> \<open>\<open>\bterm\b\<close> matches at offset \<open>k\<close>\<close>
  "wholeWordRegexAt ignoreCase s lit k \<longleftrightarrow>
     wordBoundary s k \<and> regexLiteralAt ignoreCase s lit k \<and> wordBoundary s (k + length lit)"

definition regexTest :: "(nat \<Rightarrow> bool) \<Rightarrow> nat \<Rightarrow> bool" where
  \<comment> \<open>\<open>regex.test(s)\<close> without the flag \<open>g\<close>: a match at some offset of a string of length \<open>n\<close>\<close>
  "regexTest matchAt n \<longleftrightarrow> firstFrom matchAt 0 n \<noteq> None"

function matchCount :: "(nat \<Rightarrow> bool) \<Rightarrow> nat \<Rightarrow> nat \<Rightarrow> nat \<Rightarrow> nat" where
  \<comment> \<open>\<open>(s.match(regex) || []).length\<close> under the flag \<open>g\<close>, for a string of length \<open>n\<close> and
     matches of length \<open>mlen\<close>: the leftmost match at or after \<open>lastIndex\<close> is taken and the
     scan resumes at its end, one further when the match is empty\<close>
  "matchCount matchAt mlen n lastIndex =
     (case firstFrom matchAt lastIndex n of
        None \<Rightarrow> 0
      | Some k \<Rightarrow> Suc (matchCount matchAt mlen n (k + max 1 mlen)))"
  by pat_completeness auto
termination
proof (relation "measure (\<lambda>(matchAt, mlen, n, lastIndex). Suc n - lastIndex)")
  show "wf (measure (\<lambda>(matchAt, mlen, n, lastIndex). Suc n - lastIndex))" by simp
next
  fix matchAt :: "nat \<Rightarrow> bool" and mlen n lastIndex k :: nat
  assume "firstFrom matchAt lastIndex n = Some k"
  then have "lastIndex \<le> k \<and> k \<le> n" by (simp add: firstFrom_Some_iff)
  then show "((matchAt, mlen, n, k + max 1 mlen), (matchAt, mlen, n, lastIndex))
      \<in> measure (\<lambda>(matchAt, mlen, n, lastIndex). Suc n - lastIndex)"
    by auto
qed

declare matchCount.simps [simp del]

section \<open>Single-buffer search\<close>

partial_function (option) findInText :: "string \<Rightarrow> string \<Rightarrow> int \<Rightarrow> bool \<Rightarrow> bool \<Rightarrow> int option" where
  "findInText text searchTerm startPos caseSensitive wholeWord =
     (let searchText = (if caseSensitive then text else toLowerCase text);
          searchFor = (if caseSensitive then searchTerm else toLowerCase searchTerm);
          index = indexOf searchText searchFor startPos
      in if wholeWord \<and> index \<noteq> - 1 then
           (let before = (if index > 0 then searchText ! nat (index - 1) else CHR '' '');
                after = (if index + int (length searchFor) < int (length searchText)
                         then searchText ! nat (index + int (length searchFor)) else CHR '' '')
            in if isWordChar before \<or> isWordChar after
               then findInText text searchTerm (index + 1) caseSensitive wholeWord
               else Some index)
         else Some index)"

declare findInText.simps [code]

text \<open>
  \<open>findInText\<close> and \<open>findInTextReverse\<close> call themselves when a candidate fails the
  whole-word test, and nothing in them bounds the recursion, so both are partial functions:
  \<open>None\<close> stands for a call that does not return. Each is given a second time with a
  counter of the candidates rejected so far, to state how many retries a call makes.
\<close>

partial_function (option) findInTextReverse :: "string \<Rightarrow> string \<Rightarrow> int \<Rightarrow> bool \<Rightarrow> bool \<Rightarrow> int option" where
  "findInTextReverse text searchTerm startPos caseSensitive wholeWord =
     (let searchText = (if caseSensitive then substring text 0 startPos
                        else toLowerCase (substring text 0 startPos));
          searchFor = (if caseSensitive then searchTerm else toLowerCase searchTerm);
          index = lastIndexOf searchText searchFor
      in if wholeWord \<and> index \<noteq> - 1 then
           (let before = (if index > 0 then searchText ! nat (index - 1) else CHR '' '');
                after = (if index + int (length searchFor) < int (length text)
                         then text ! nat (index + int (length searchFor)) else CHR '' '')
            in if isWordChar before \<or> isWordChar after
               then findInTextReverse text searchTerm index caseSensitive wholeWord
               else Some index)
         else Some index)"

declare findInTextReverse.simps [code]





section \<open>Counting occurrences\<close>

partial_function (option) countLoop :: "string \<Rightarrow> string \<Rightarrow> nat \<Rightarrow> int \<Rightarrow> nat option" where
  \<comment> \<open>\<open>while ((pos = searchText.indexOf(searchFor, pos)) !== -1) { count++; pos += searchFor.length; }\<close>\<close>
  "countLoop searchText searchFor count pos =
     (let pos' = indexOf searchText searchFor pos
      in if pos' \<noteq> - 1
         then countLoop searchText searchFor (count + 1) (pos' + int (length searchFor))
         else Some count)"

declare countLoop.simps [code]

definition countInText :: "string \<Rightarrow> string \<Rightarrow> bool \<Rightarrow> bool \<Rightarrow> nat option" where
  "countInText text searchTerm caseSensitive wholeWord =
     (let searchText = (if caseSensitive then text else toLowerCase text);
          searchFor = (if caseSensitive then searchTerm else toLowerCase searchTerm)
      in if wholeWord
         then Some (matchCount (wholeWordRegexAt (\<not> caseSensitive) text searchFor)
                      (length searchFor) (length text) 0)
         else countLoop searchText searchFor 0 0)"

section \<open>Searching all open tabs\<close>

record tab =
  tab_id :: nat
  tab_name :: string
  tab_content :: string
  tab_modified :: bool

type_synonym lineMatch = "nat \<times> string"

definition lineMatches :: "string \<Rightarrow> string \<Rightarrow> bool \<Rightarrow> bool \<Rightarrow> bool" where
  \<comment> \<open>the test \<open>searchInAllFiles\<close> applies to one line\<close>
  "lineMatches line searchTerm caseSensitive wholeWord =
     (let searchIn = (if caseSensitive then line else toLowerCase line);
          searchFor = (if caseSensitive then searchTerm else toLowerCase searchTerm)
      in if wholeWord
         then regexTest (wholeWordRegexAt (\<not> caseSensitive) line searchFor) (length line)
         else includes_str searchIn searchFor)"

fun scanLines :: "string \<Rightarrow> bool \<Rightarrow> bool \<Rightarrow> string list \<Rightarrow> nat \<Rightarrow> lineMatch list \<Rightarrow> lineMatch list" where
  \<comment> \<open>\<open>lines.forEach((line, index) => ...)\<close> from \<open>index\<close> on, pushing onto \<open>matches\<close>\<close>
  "scanLines searchTerm caseSensitive wholeWord [] index matches = matches"
| "scanLines searchTerm caseSensitive wholeWord (line # rest) index matches =
     scanLines searchTerm caseSensitive wholeWord rest (index + 1)
       (if lineMatches line searchTerm caseSensitive wholeWord
        then matches @ [(index + 1, line)] else matches)"

fun scanTabs :: "string \<Rightarrow> bool \<Rightarrow> bool \<Rightarrow> tab list \<Rightarrow> nat \<times> (tab \<times> lineMatch list) list
    \<Rightarrow> nat \<times> (tab \<times> lineMatch list) list" where
  \<comment> \<open>\<open>this.tabs.forEach(tab => ...)\<close>, updating \<open>totalMatches\<close> and \<open>fileResults\<close>\<close>
  "scanTabs searchTerm caseSensitive wholeWord [] acc = acc"
| "scanTabs searchTerm caseSensitive wholeWord (tab # rest) (totalMatches, fileResults) =
     (let content = tab_content tab;
          lines = split_str content [CHR 0x0A];
          matches = scanLines searchTerm caseSensitive wholeWord lines 0 []
      in scanTabs searchTerm caseSensitive wholeWord rest
           (if length matches > 0
            then (totalMatches + length matches, fileResults @ [(tab, matches)])
            else (totalMatches, fileResults)))"

definition searchInAllFiles :: "tab list \<Rightarrow> string \<Rightarrow> bool \<Rightarrow> bool \<Rightarrow> nat \<times> (tab \<times> lineMatch list) list" where
  \<comment> \<open>the totals \<open>searchInAllFiles\<close> accumulates, \<open>totalMatches\<close> and \<open>fileResults\<close>; the HTML
     it renders from them is left out\<close>
  "searchInAllFiles tabs searchTerm caseSensitive wholeWord =
     scanTabs searchTerm caseSensitive wholeWord tabs (0, [])"

section \<open>The editor state and the find and replace operations\<close>

text \<open>
  The operations of the find dialog read the dialog's inputs and act on the text area and
  on the open tabs. The state holds what they read and write: the text area's value and
  selection, the tabs, and the status line \<open>findResults\<close>, whose texts are the
  constructors of \<open>message\<close>. Logging, toasts, focus, scrolling and the rendering of
  tabs and line numbers are left out. An operation whose search does not return has no
  result either (\<open>None\<close>).
\<close>

datatype searchScope = CurrentFile | AllFiles

record dialog =
  findInput :: string
  replaceInput :: string
  caseSensitiveChecked :: bool
  wholeWordChecked :: bool
  searchScopeChecked :: searchScope

datatype message =
    NoMessage
  | FoundAtPosition int
  | WrappedToBeginning
  | NoMatchesFound
  | ReplacedOneOccurrence
  | ReplacedOccurrences nat
  | FoundOccurrences nat
  | NoMatchesInAnyFile
  | FoundMatchesInFiles nat nat

record edita =
  editor_value :: string
  selectionStart :: nat
  selectionEnd :: nat
  tabs :: "tab list"
  activeTabId :: nat
  findResults :: message
  searchResultsPanel :: "(tab \<times> lineMatch list) list option"

definition setValue :: "string \<Rightarrow> edita \<Rightarrow> edita" where
  \<comment> \<open>\<open>this.editor.value = v\<close>: a new value also moves the cursor to its end\<close>
  "setValue v s =
     (if v = editor_value s then s
      else s\<lparr>editor_value := v, selectionStart := length v, selectionEnd := length v\<rparr>)"

definition setSelectionRange :: "nat \<Rightarrow> nat \<Rightarrow> edita \<Rightarrow> edita" where
  \<comment> \<open>\<open>this.editor.setSelectionRange(a, b)\<close>: both ends are kept inside the value\<close>
  "setSelectionRange a b s =
     (let n = length (editor_value s); e = min b n
      in s\<lparr>selectionStart := min (min a n) e, selectionEnd := e\<rparr>)"

fun updateCurrentTab :: "nat \<Rightarrow> string \<Rightarrow> tab list \<Rightarrow> tab list" where
  \<comment> \<open>\<open>this.tabs.find(t => t.id === this.activeTabId)\<close>, then the two assignments to it\<close>
  "updateCurrentTab i v [] = []"
| "updateCurrentTab i v (t # ts) =
     (if tab_id t = i then t\<lparr>tab_content := v, tab_modified := True\<rparr> # ts
      else t # updateCurrentTab i v ts)"

definition handleInput :: "edita \<Rightarrow> edita" where
  "handleInput s = s\<lparr>tabs := updateCurrentTab (activeTabId s) (editor_value s) (tabs s)\<rparr>"

definition findNext :: "dialog \<Rightarrow> edita \<Rightarrow> edita option" where
  "findNext d s =
     (let searchTerm = findInput d
      in if searchTerm = [] then Some s
         else
           (let caseSensitive = caseSensitiveChecked d;
                wholeWord = wholeWordChecked d;
                content = editor_value s;
                currentPos = int (selectionStart s) + 1
            in case findInText content searchTerm currentPos caseSensitive wholeWord of
                 None \<Rightarrow> None
               | Some index \<Rightarrow>
                   if index \<noteq> - 1
                   then Some ((setSelectionRange (nat index) (nat index + length searchTerm) s)
                                \<lparr>findResults := FoundAtPosition index\<rparr>)
                   else
                     (case findInText content searchTerm 0 caseSensitive wholeWord of
                        None \<Rightarrow> None
                      | Some firstIndex \<Rightarrow>
                          if firstIndex \<noteq> - 1
                          then Some ((setSelectionRange (nat firstIndex)
                                        (nat firstIndex + length searchTerm) s)
                                       \<lparr>findResults := WrappedToBeginning\<rparr>)
                          else Some (s\<lparr>findResults := NoMatchesFound\<rparr>))))"

definition replaceOne :: "dialog \<Rightarrow> edita \<Rightarrow> edita option" where
  "replaceOne d s =
     (let searchTerm = findInput d;
          replaceTerm = replaceInput d
      in if searchTerm = [] then Some s
         else
           (let start = selectionStart s;
                end = selectionEnd s;
                selected = substring (editor_value s) (int start) (int end);
                s' = (if selected = searchTerm
                      then
                        (let content = editor_value s;
                             s1 = setValue (substring content 0 (int start) @ replaceTerm
                                              @ substringFrom content (int end)) s;
                             s2 = setSelectionRange start (start + length replaceTerm) s1;
                             s3 = handleInput s2
                         in s3\<lparr>findResults := ReplacedOneOccurrence\<rparr>)
                      else s)
            in findNext d s'))"

definition replaceAll :: "dialog \<Rightarrow> edita \<Rightarrow> edita" where
  "replaceAll d s =
     (let searchTerm = findInput d;
          replaceTerm = replaceInput d
      in if searchTerm = [] then s
         else
           (let originalContent = editor_value s;
                newContent = join_str (split_str originalContent searchTerm) replaceTerm;
                count = matchCount (regexLiteralAt False originalContent searchTerm)
                          (length searchTerm) (length originalContent) 0;
                s1 = setValue newContent s;
                s2 = handleInput s1
            in s2\<lparr>findResults := ReplacedOccurrences count\<rparr>))"

definition countOccurrences :: "dialog \<Rightarrow> edita \<Rightarrow> edita option" where
  "countOccurrences d s =
     (let searchTerm = findInput d
      in if searchTerm = [] then Some s
         else
           (let searchScope = searchScopeChecked d;
                caseSensitive = caseSensitiveChecked d;
                wholeWord = wholeWordChecked d
            in if searchScope = CurrentFile
               then
                 (case countInText (editor_value s) searchTerm caseSensitive wholeWord of
                    None \<Rightarrow> None
                  | Some count \<Rightarrow> Some (s\<lparr>findResults := FoundOccurrences count\<rparr>))
               else
                 (case searchInAllFiles (tabs s) searchTerm caseSensitive wholeWord of
                    (totalMatches, fileResults) \<Rightarrow>
                      if totalMatches = 0
                      then Some (s\<lparr>findResults := NoMatchesInAnyFile, searchResultsPanel := None\<rparr>)
                      else Some (s\<lparr>findResults := FoundMatchesInFiles totalMatches (length fileResults),
                                    searchResultsPanel := Some fileResults\<rparr>))))"

section \<open>Occurrences that qualify\<close>

text \<open>
  The properties below speak of the occurrences of a search term in a text. These
  definitions say what an occurrence is under the two options, independently of the
  search functions.
\<close>

definition normCase :: "bool \<Rightarrow> string \<Rightarrow> string" where
  \<comment> \<open>\<open>caseSensitive ? s : s.toLowerCase()\<close>, as every search function starts\<close>
  "normCase caseSensitive s = (if caseSensitive then s else toLowerCase s)"

definition neighboursNonWord :: "string \<Rightarrow> nat \<Rightarrow> nat \<Rightarrow> bool" where
  \<comment> \<open>neither the character before offset \<open>k\<close> nor the one \<open>len\<close> characters on is a word
     character; a position outside \<open>s\<close> has no word character\<close>
  "neighboursNonWord s k len \<longleftrightarrow>
     \<not> (0 < k \<and> isWordChar (s ! (k - 1))) \<and> \<not> (k + len < length s \<and> isWordChar (s ! (k + len)))"

definition qualifies :: "string \<Rightarrow> string \<Rightarrow> bool \<Rightarrow> bool \<Rightarrow> nat \<Rightarrow> bool" where
  \<comment> \<open>an occurrence of the term at offset \<open>k\<close> under the case rule that also passes the
     whole-word rule when that is asked for\<close>
  "qualifies text searchTerm caseSensitive wholeWord k \<longleftrightarrow>
     occursAt (normCase caseSensitive text) (normCase caseSensitive searchTerm) k \<and>
     (wholeWord \<longrightarrow> neighboursNonWord (normCase caseSensitive text) k (length searchTerm))"

definition resultOf :: "nat option \<Rightarrow> int" where
  \<comment> \<open>a search result as the code returns it: the offset, or \<open>-1\<close>\<close>
  "resultOf r = (case r of None \<Rightarrow> - 1 | Some k \<Rightarrow> int k)"

definition inWindow :: "string \<Rightarrow> string \<Rightarrow> bool \<Rightarrow> nat \<Rightarrow> nat \<Rightarrow> bool" where
  \<comment> \<open>an occurrence of the term at offset \<open>k\<close> under the case rule that ends at or before
     offset \<open>p\<close>, so that it lies in the first \<open>p\<close> characters\<close>
  "inWindow text searchTerm cs p k \<longleftrightarrow>
     occursAt (normCase cs text) (normCase cs searchTerm) k \<and> k + length searchTerm \<le> p"

definition occurrences :: "string \<Rightarrow> string \<Rightarrow> bool \<Rightarrow> bool \<Rightarrow> nat list" where
  \<comment> \<open>the offsets of all qualifying occurrences, overlapping ones included, in ascending order\<close>
  "occurrences text searchTerm cs ww = filter (qualifies text searchTerm cs ww) [0 ..< Suc (length text)]"



definition matchingLines :: "string \<Rightarrow> string \<Rightarrow> bool \<Rightarrow> bool \<Rightarrow> lineMatch list" where
  \<comment> \<open>the lines of a buffer that pass the line test, each once, with their 1-based numbers\<close>
  "matchingLines content searchTerm cs ww =
     (let lines = split_str content [CHR 0x0A]
      in filter (\<lambda>(lineNum, line). lineMatches line searchTerm cs ww)
           (zip [1 ..< Suc (length lines)] lines))"

definition findInText_accepts :: "string \<Rightarrow> string \<Rightarrow> int \<Rightarrow> bool" where
  \<comment> \<open>the whole-word test of \<open>findInText\<close> on a candidate \<open>index\<close>, with its \<open>before\<close> and
     \<open>after\<close>: the candidate is kept when neither is a word character\<close>
  "findInText_accepts searchText searchFor index =
     (let before = (if index > 0 then searchText ! nat (index - 1) else CHR '' '');
          after = (if index + int (length searchFor) < int (length searchText)
                   then searchText ! nat (index + int (length searchFor)) else CHR '' '')
      in \<not> (isWordChar before \<or> isWordChar after))"

section \<open>Basic facts\<close>

lemma isWordChar_space: "\<not> isWordChar CHR '' ''"
  by (simp add: isWordChar_def)

lemma isWordChar_toLowerChar: "isWordChar (toLowerChar c) = isWordChar c"
  by (simp add: isWordChar_def toLowerChar_def Let_def)

lemma length_toLowerCase: "length (toLowerCase s) = length s"
  by (simp add: toLowerCase_def)

lemma length_normCase: "length (normCase cs s) = length s"
  by (simp add: normCase_def length_toLowerCase)


lemma findInText_step:
  "findInText text searchTerm startPos cs ww =
     (case firstFrom (occursAt (normCase cs text) (normCase cs searchTerm))
             (clampPos startPos (length text)) (length text) of
        None \<Rightarrow> Some (- 1)
      | Some k \<Rightarrow>
          if ww \<and> \<not> neighboursNonWord (normCase cs text) k (length searchTerm)
          then findInText text searchTerm (int k + 1) cs ww
          else Some (int k))"
  apply (subst findInText.simps)
  apply (cases cs)
   apply (auto simp add: Let_def indexOf_def normCase_def neighboursNonWord_def isWordChar_space
      length_toLowerCase nat_add_distrib nat_diff_distrib split: option.splits)
  done






lemma toLowerCase_take: "toLowerCase (take p s) = take p (toLowerCase s)"
  by (simp add: toLowerCase_def take_map)

lemma normCase_take: "normCase cs (take p s) = take p (normCase cs s)"
  by (simp add: normCase_def toLowerCase_take)

lemma substring_0: "substring text 0 startPos = take (clampPos startPos (length text)) text"
  by (simp add: substring_def clampPos_def Let_def)

lemma occursAt_take:
  "p \<le> length s \<Longrightarrow> occursAt (take p s) pat k \<longleftrightarrow> occursAt s pat k \<and> k + length pat \<le> p"
proof -
  assume p: "p \<le> length s"
  show ?thesis
  proof (cases "k + length pat \<le> p")
    case True
    then have "take (length pat) (drop k (take p s)) = take (length pat) (drop k s)"
      by (simp add: drop_take min_def)
    with True p show ?thesis by (simp add: occursAt_def)
  next
    case False
    with p show ?thesis by (simp add: occursAt_def)
  qed
qed

lemma isWordChar_normCase_nth:
  "i < length s \<Longrightarrow> isWordChar (normCase cs s ! i) = isWordChar (s ! i)"
  by (simp add: normCase_def toLowerCase_def isWordChar_toLowerChar)

lemma clampPos_le: "clampPos pos n \<le> n"
  by (simp add: clampPos_def)

lemma lastIndexOf_window:
  "lastIndexOf (normCase cs (substring text 0 startPos)) (normCase cs searchTerm) =
     resultOf (lastUpTo (inWindow text searchTerm cs (clampPos startPos (length text)))
                 (clampPos startPos (length text)))"
proof -
  let ?p = "clampPos startPos (length text)"
  have "occursAt (take ?p (normCase cs text)) (normCase cs searchTerm) =
          inWindow text searchTerm cs ?p"
    by (rule ext) (simp add: occursAt_take clampPos_le length_normCase inWindow_def)
  moreover have "length (take ?p (normCase cs text)) = ?p"
    using clampPos_le [of startPos "length text"] by (simp add: length_normCase)
  ultimately show ?thesis
    by (simp only: lastIndexOf_def substring_0 normCase_take resultOf_def)
qed

lemma findInTextReverse_unfold:
  "findInTextReverse text searchTerm startPos cs ww =
     (let searchText = normCase cs (substring text 0 startPos);
          searchFor = normCase cs searchTerm;
          index = lastIndexOf searchText searchFor
      in if ww \<and> index \<noteq> - 1 then
           (let before = (if index > 0 then searchText ! nat (index - 1) else CHR '' '');
                after = (if index + int (length searchFor) < int (length text)
                         then text ! nat (index + int (length searchFor)) else CHR '' '')
            in if isWordChar before \<or> isWordChar after
               then findInTextReverse text searchTerm index cs ww
               else Some index)
         else Some index)"
  by (subst findInTextReverse.simps, cases cs) (simp_all only: normCase_def if_True if_False)

lemma reverse_rejection:
  assumes "inWindow text searchTerm cs (clampPos startPos (length text)) k"
  shows "(isWordChar (if int k > 0
                      then normCase cs (substring text 0 startPos) ! nat (int k - 1)
                      else CHR '' '') \<or>
          isWordChar (if int k + int (length (normCase cs searchTerm)) < int (length text)
                      then text ! nat (int k + int (length (normCase cs searchTerm)))
                      else CHR '' ''))
         \<longleftrightarrow> \<not> neighboursNonWord (normCase cs text) k (length searchTerm)"
proof -
  let ?p = "clampPos startPos (length text)"
  from assms have kp: "k + length searchTerm \<le> ?p"
    by (simp add: inWindow_def)
  have b: "0 < k \<Longrightarrow> normCase cs (substring text 0 startPos) ! (k - 1) = normCase cs text ! (k - 1)"
    using kp by (simp add: substring_0 normCase_take)
  have a: "k + length searchTerm < length text \<Longrightarrow>
      isWordChar (text ! (k + length searchTerm)) =
      isWordChar (normCase cs text ! (k + length searchTerm))"
    by (simp add: isWordChar_normCase_nth)
  have n1: "nat (int k - 1) = k - 1" by simp
  have n2: "nat (int k + int (length searchTerm)) = k + length searchTerm" by (simp add: nat_add_distrib)
  show ?thesis
    unfolding neighboursNonWord_def length_normCase n1 n2
    using a b by (auto simp add: isWordChar_space)
qed

lemma findInTextReverse_step:
  "findInTextReverse text searchTerm startPos cs ww =
     (case lastUpTo (inWindow text searchTerm cs (clampPos startPos (length text)))
             (clampPos startPos (length text)) of
        None \<Rightarrow> Some (- 1)
      | Some k \<Rightarrow>
          if ww \<and> \<not> neighboursNonWord (normCase cs text) k (length searchTerm)
          then findInTextReverse text searchTerm (int k) cs ww
          else Some (int k))"
proof (cases "lastUpTo (inWindow text searchTerm cs (clampPos startPos (length text)))
               (clampPos startPos (length text))")
  case None
  then have "lastIndexOf (normCase cs (substring text 0 startPos)) (normCase cs searchTerm) = - 1"
    by (simp add: lastIndexOf_window resultOf_def)
  then show ?thesis unfolding findInTextReverse_unfold [of "text" searchTerm startPos] Let_def
    using None by simp
next
  case (Some k)
  then have k: "inWindow text searchTerm cs (clampPos startPos (length text)) k"
    unfolding lastUpTo_Some_iff by blast
  have idx: "lastIndexOf (normCase cs (substring text 0 startPos)) (normCase cs searchTerm) = int k"
    using Some by (simp add: lastIndexOf_window resultOf_def)
  have ne: "int k \<noteq> - 1" by simp
  show ?thesis
    unfolding findInTextReverse_unfold [of "text" searchTerm startPos] Let_def idx
      reverse_rejection [OF k]
    using Some ne by simp
qed




lemma inWindow_less:
  assumes "searchTerm \<noteq> []" and "inWindow text searchTerm cs p k"
  shows "k < p"
  using assms by (cases searchTerm) (auto simp: inWindow_def)

lemma clampPos_int: "k \<le> n \<Longrightarrow> clampPos (int k) n = k"
  by (simp add: clampPos_def)




section \<open>Forward search with the whole-word option\<close>



section \<open>Termination of the whole-word retries\<close>



section \<open>Wrap-around navigation\<close>















section \<open>The empty pattern\<close>

lemma occursAt_Nil: "occursAt s [] k \<longleftrightarrow> k \<le> length s"
  by (simp add: occursAt_def)

lemma findInText_empty_term:
  "findInText text [] startPos cs False = Some (int (clampPos startPos (length text)))"
proof -
  have "firstFrom (occursAt (normCase cs text) (normCase cs []))
          (clampPos startPos (length text)) (length text) = Some (clampPos startPos (length text))"
    unfolding firstFrom_Some_iff
    by (simp add: normCase_def toLowerCase_def occursAt_Nil length_toLowerCase clampPos_le)
  then show ?thesis by (subst findInText_step) simp
qed

text \<open>
  C4, as amended: an empty pattern is turned away by the guard at the head of each of
  the four operations. Find Next, Count, Replace and Replace All return at once and
  leave the text, the selection, the tabs and the status line as they were, for every
  state and every setting of the options. \<open>findInText\<close> itself has no such guard: given
  an empty pattern without the whole-word option it returns the clamped start offset,
  not \<open>-1\<close>; the operations never call it so.
\<close>

theorem empty_pattern_stops_every_operation:
  assumes "findInput d = []"
  shows "findNext d s = Some s \<and> countOccurrences d s = Some s \<and>
         replaceOne d s = Some s \<and> replaceAll d s = s \<and>
         findInText text (findInput d) startPos cs False =
           Some (int (clampPos startPos (length text)))"
  using assms
  by (simp add: findNext_def countOccurrences_def replaceOne_def replaceAll_def
      findInText_empty_term)

theorem empty_pattern_stops_every_operation_witness:
  "findInput \<lparr>findInput = [], replaceInput = ''x'', caseSensitiveChecked = False,
      wholeWordChecked = True, searchScopeChecked = AllFiles\<rparr> = [] \<and>
   replaceAll \<lparr>findInput = [], replaceInput = ''x'', caseSensitiveChecked = False,
      wholeWordChecked = True, searchScopeChecked = AllFiles\<rparr>
     \<lparr>editor_value = ''abc'', selectionStart = 1, selectionEnd = 2, tabs = [],
      activeTabId = 0, findResults = NoMessage, searchResultsPanel = None\<rparr>
   = \<lparr>editor_value = ''abc'', selectionStart = 1, selectionEnd = 2, tabs = [],
      activeTabId = 0, findResults = NoMessage, searchResultsPanel = None\<rparr> \<and>
   findInText ''abc'' [] 7 True False = Some 3"
proof -
  let ?d = "\<lparr>findInput = [], replaceInput = ''x'', caseSensitiveChecked = False,
      wholeWordChecked = True, searchScopeChecked = AllFiles\<rparr>"
  let ?s = "\<lparr>editor_value = ''abc'', selectionStart = 1, selectionEnd = 2, tabs = [],
      activeTabId = 0, findResults = NoMessage, searchResultsPanel = None\<rparr>"
  have e: "findInput ?d = []" by simp
  from empty_pattern_stops_every_operation [OF e, of ?s "''abc''" 7 True]
  show ?thesis by (simp add: clampPos_def)
qed

text \<open>
  Called directly with an empty pattern, \<open>findInText\<close> reports a match at offset 0 of
  \<open>abc\<close> rather than \<open>-1\<close>.
\<close>

theorem findInText_empty_pattern_counterexample:
  "findInText ''abc'' [] 0 True False = Some 0 \<and> findInText ''abc'' [] 0 True False \<noteq> Some (- 1)"
  by code_simp

section \<open>Replacing and the search options\<close>

lemma findNext_editor_value:
  "findNext d s = Some s' \<Longrightarrow> editor_value s' = editor_value s \<and> tabs s' = tabs s"
  by (auto simp: findNext_def Let_def setSelectionRange_def split: if_splits option.splits)

lemma replaceOne_mismatch:
  assumes "substring (editor_value s) (int (selectionStart s)) (int (selectionEnd s)) \<noteq> findInput d"
  shows "replaceOne d s = findNext d s"
  using assms by (simp add: replaceOne_def findNext_def Let_def)

text \<open>
  C6: Replace compares the selection with the pattern character by character and never
  reads the case option. With case sensitivity off, pattern \<open>foo\<close> and the selection
  \<open>Foo\<close>, which equals the pattern once both are lower-cased, it replaces nothing: the
  text stays \<open>Foo\<close>, and the Find Next that follows wraps around to the same match.
\<close>

theorem replaceOne_ignores_case_option:
  "normCase False (substring ''Foo'' 0 3) = normCase False ''foo'' \<and>
   replaceOne
     \<lparr>findInput = ''foo'', replaceInput = ''bar'', caseSensitiveChecked = False,
        wholeWordChecked = False, searchScopeChecked = CurrentFile\<rparr>
     \<lparr>editor_value = ''Foo'', selectionStart = 0, selectionEnd = 3,
        tabs = [\<lparr>tab_id = 0, tab_name = ''Untitled'', tab_content = ''Foo'', tab_modified = False\<rparr>],
        activeTabId = 0, findResults = NoMessage, searchResultsPanel = None\<rparr>
   = Some \<lparr>editor_value = ''Foo'', selectionStart = 0, selectionEnd = 3,
        tabs = [\<lparr>tab_id = 0, tab_name = ''Untitled'', tab_content = ''Foo'', tab_modified = False\<rparr>],
        activeTabId = 0, findResults = WrappedToBeginning, searchResultsPanel = None\<rparr>"
  by code_simp

text \<open>
  C2: Replace All never reads the whole-word option. On \<open>catalog cat\<close> with pattern
  \<open>cat\<close> and the option set, the only whole-word occurrence is the one at offset 8, yet
  both occurrences are replaced and two replacements are reported.
\<close>

theorem replaceAll_ignores_wholeWord_option:
  "occurrences ''catalog cat'' ''cat'' True True = [8] \<and>
   replaceAll
     \<lparr>findInput = ''cat'', replaceInput = ''dog'', caseSensitiveChecked = True,
        wholeWordChecked = True, searchScopeChecked = CurrentFile\<rparr>
     \<lparr>editor_value = ''catalog cat'', selectionStart = 0, selectionEnd = 0,
        tabs = [\<lparr>tab_id = 0, tab_name = ''Untitled'', tab_content = ''catalog cat'', tab_modified = False\<rparr>],
        activeTabId = 0, findResults = NoMessage, searchResultsPanel = None\<rparr>
   = \<lparr>editor_value = ''dogalog dog'', selectionStart = 11, selectionEnd = 11,
        tabs = [\<lparr>tab_id = 0, tab_name = ''Untitled'', tab_content = ''dogalog dog'', tab_modified = True\<rparr>],
        activeTabId = 0, findResults = ReplacedOccurrences 2, searchResultsPanel = None\<rparr>"
  by code_simp

text \<open>
  C1: the number Replace All reports is the number of exact-case, non-overlapping
  occurrences whatever the options say, so it differs from \<open>countInText\<close> under the
  same options: with case sensitivity off, \<open>foo\<close> is counted twice in \<open>Foo foo\<close> and
  replaced once; with the whole-word option, \<open>cat\<close> is counted once in \<open>catalog cat\<close>
  and replaced twice. The two numbers agree when the search is case-sensitive and not
  restricted to whole words (\<open>replaceAll_count_exact_case\<close> below).
\<close>

theorem replaceAll_count_differs_from_countInText:
  "countInText ''Foo foo'' ''foo'' False False = Some 2 \<and>
   findResults (replaceAll
     \<lparr>findInput = ''foo'', replaceInput = ''bar'', caseSensitiveChecked = False,
        wholeWordChecked = False, searchScopeChecked = CurrentFile\<rparr>
     \<lparr>editor_value = ''Foo foo'', selectionStart = 0, selectionEnd = 0, tabs = [],
        activeTabId = 0, findResults = NoMessage, searchResultsPanel = None\<rparr>)
   = ReplacedOccurrences 1 \<and>
   countInText ''catalog cat'' ''cat'' True True = Some 1 \<and>
   findResults (replaceAll
     \<lparr>findInput = ''cat'', replaceInput = ''dog'', caseSensitiveChecked = True,
        wholeWordChecked = True, searchScopeChecked = CurrentFile\<rparr>
     \<lparr>editor_value = ''catalog cat'', selectionStart = 0, selectionEnd = 0, tabs = [],
        activeTabId = 0, findResults = NoMessage, searchResultsPanel = None\<rparr>)
   = ReplacedOccurrences 2"
  by code_simp

lemma regexLiteralAt_exact: "regexLiteralAt False s lit = occursAt s lit"
  by (rule ext) (simp add: regexLiteralAt_def occursAt_def)

lemma countLoop_matchCount:
  assumes "searchFor \<noteq> []"
  shows "countLoop s searchFor count (int pos) =
           Some (count + matchCount (occursAt s searchFor) (length searchFor) (length s) pos)"
proof (induction "Suc (length s) - pos" arbitrary: pos count rule: less_induct)
  case less
  let ?P = "occursAt s searchFor"
  have none_beyond: "firstFrom ?P (clampPos (int pos) (length s)) (length s) = firstFrom ?P pos (length s)"
  proof (cases "pos \<le> length s")
    case True
    then show ?thesis by (simp add: clampPos_def)
  next
    case False
    have "firstFrom ?P (length s) (length s) = None"
      unfolding firstFrom_None_iff using assms by (cases searchFor) (auto simp: occursAt_def)
    moreover have "firstFrom ?P pos (length s) = None"
      unfolding firstFrom_None_iff using False by auto
    ultimately show ?thesis using False by (simp add: clampPos_def)
  qed
  show ?case
  proof (cases "firstFrom ?P pos (length s)")
    case None
    then show ?thesis
      using none_beyond
      by (subst countLoop.simps, subst matchCount.simps) (simp add: indexOf_def Let_def)
  next
    case (Some k)
    then have k: "pos \<le> k" "k \<le> length s" unfolding firstFrom_Some_iff by blast+
    have mx: "max 1 (length searchFor) = length searchFor" using assms by (cases searchFor) auto
    have lt: "Suc (length s) - (k + length searchFor) < Suc (length s) - pos"
      using k assms by (cases searchFor) auto
    have "countLoop s searchFor (count + 1) (int (k + length searchFor)) =
        Some (count + 1 + matchCount ?P (length searchFor) (length s) (k + length searchFor))"
      by (rule less [OF lt])
    then show ?thesis
      using Some none_beyond mx
      by (subst countLoop.simps, subst matchCount.simps) (simp add: indexOf_def Let_def)
  qed
qed

lemma replaceAll_count_exact_case:
  assumes "findInput d \<noteq> []"
  shows "countInText (editor_value s) (findInput d) True False = Some n \<longleftrightarrow>
         findResults (replaceAll d s) = ReplacedOccurrences n"
  using assms countLoop_matchCount [OF assms, of "editor_value s" 0 0]
  by (simp add: countInText_def replaceAll_def Let_def regexLiteralAt_exact)

section \<open>Searching all open tabs: what is reported\<close>

lemma scanLines_filter:
  "scanLines searchTerm cs ww ls index matches =
     matches @ filter (\<lambda>(lineNum, line). lineMatches line searchTerm cs ww)
                 (zip [Suc index ..< Suc index + length ls] ls)"
proof (induction ls arbitrary: index matches)
  case Nil
  then show ?case by simp
next
  case (Cons l ls)
  have "[Suc index ..< Suc index + length (l # ls)] =
          Suc index # [Suc (Suc index) ..< Suc (Suc index) + length ls]"
    by (subst upt_rec) simp
  then show ?case by (simp add: Cons.IH)
qed

lemma scanLines_matchingLines:
  "scanLines searchTerm cs ww (split_str content [CHR 0x0A]) 0 [] =
     matchingLines content searchTerm cs ww"
  by (simp add: scanLines_filter matchingLines_def Let_def del: upt_Suc)

lemma scanTabs_matchingLines:
  "scanTabs searchTerm cs ww ts (totalMatches, fileResults) =
     (totalMatches + sum_list (map (\<lambda>t. length (matchingLines (tab_content t) searchTerm cs ww)) ts),
      fileResults @ map (\<lambda>t. (t, matchingLines (tab_content t) searchTerm cs ww))
                     (filter (\<lambda>t. matchingLines (tab_content t) searchTerm cs ww \<noteq> []) ts))"
proof (induction ts arbitrary: totalMatches fileResults)
  case Nil
  then show ?case by simp
next
  case (Cons t ts)
  show ?case
    by (simp add: Cons.IH scanLines_matchingLines Let_def)
qed

lemma matchingLines_numbers:
  "sorted_wrt (<) (map fst (matchingLines content searchTerm cs ww))"
proof -
  let ?ls = "split_str content [CHR 0x0A]"
  let ?P = "\<lambda>(lineNum :: nat, line). lineMatches line searchTerm cs ww"
  have "sorted_wrt (<) (map fst (zip [1 ..< Suc (length ?ls)] ?ls))"
    by (simp del: upt_Suc)
  then have "sorted_wrt (\<lambda>a b. fst a < fst b) (zip [1 ..< Suc (length ?ls)] ?ls)"
    by (simp only: sorted_wrt_map)
  then have "sorted_wrt (\<lambda>a b. fst a < fst b) (filter ?P (zip [1 ..< Suc (length ?ls)] ?ls))"
    by (rule sorted_wrt_filter)
  then show ?thesis by (simp only: matchingLines_def Let_def sorted_wrt_map)
qed

lemma matchingLines_member:
  "(lineNum, line) \<in> set (matchingLines content searchTerm cs ww) \<longleftrightarrow>
     1 \<le> lineNum \<and> lineNum \<le> length (split_str content [CHR 0x0A]) \<and>
     line = split_str content [CHR 0x0A] ! (lineNum - 1) \<and> lineMatches line searchTerm cs ww"
proof -
  let ?ls = "split_str content [CHR 0x0A]"
  have "(lineNum, line) \<in> set (zip [1 ..< Suc (length ?ls)] ?ls) \<longleftrightarrow>
        1 \<le> lineNum \<and> lineNum \<le> length ?ls \<and> line = ?ls ! (lineNum - 1)"
  proof
    assume "(lineNum, line) \<in> set (zip [1 ..< Suc (length ?ls)] ?ls)"
    then obtain i where i: "i < length ?ls" "[1 ..< Suc (length ?ls)] ! i = lineNum" "?ls ! i = line"
      by (auto simp: in_set_zip simp del: upt_Suc)
    from i(1) have "[1 ..< Suc (length ?ls)] ! i = 1 + i" by (intro nth_upt) simp
    with i show "1 \<le> lineNum \<and> lineNum \<le> length ?ls \<and> line = ?ls ! (lineNum - 1)" by auto
  next
    assume r: "1 \<le> lineNum \<and> lineNum \<le> length ?ls \<and> line = ?ls ! (lineNum - 1)"
    then have i: "lineNum - 1 < length ?ls" by arith
    then have "[1 ..< Suc (length ?ls)] ! (lineNum - 1) = 1 + (lineNum - 1)" by (intro nth_upt) simp
    with r i show "(lineNum, line) \<in> set (zip [1 ..< Suc (length ?ls)] ?ls)"
      by (auto simp: in_set_zip simp del: upt_Suc intro!: exI [of _ "lineNum - 1"])
  qed
  then show ?thesis by (simp add: matchingLines_def Let_def del: upt_Suc)
qed

text \<open>
  C5: for every ordered list of buffers and every pattern, \<open>searchInAllFiles\<close> reports,
  in the order of the buffers, exactly the buffers that have a matching line, each with
  its matching lines; a line is a matching line when it passes the line test, it is
  listed once under its 1-based number however many occurrences it holds, and the line
  numbers of a buffer ascend. \<open>totalMatches\<close> is the number of matching lines over all
  buffers. For the buffers \<open>foo\<newline>bar foo\<close> (id 1) and \<open>baz\<close> (id 2) and the pattern
  \<open>foo\<close> the result is one entry, for buffer 1, with lines 1 and 2, and a total of 2.
\<close>

theorem searchInAllFiles_lines_per_tab:
  "searchInAllFiles ts searchTerm cs ww =
     (sum_list (map (\<lambda>t. length (matchingLines (tab_content t) searchTerm cs ww)) ts),
      map (\<lambda>t. (t, matchingLines (tab_content t) searchTerm cs ww))
        (filter (\<lambda>t. matchingLines (tab_content t) searchTerm cs ww \<noteq> []) ts)) \<and>
   distinct (map fst (matchingLines content searchTerm cs ww)) \<and>
   sorted (map fst (matchingLines content searchTerm cs ww)) \<and>
   ((lineNum, line) \<in> set (matchingLines content searchTerm cs ww) \<longleftrightarrow>
      1 \<le> lineNum \<and> lineNum \<le> length (split_str content [CHR 0x0A]) \<and>
      line = split_str content [CHR 0x0A] ! (lineNum - 1) \<and> lineMatches line searchTerm cs ww) \<and>
   searchInAllFiles
     [\<lparr>tab_id = 1, tab_name = name1, tab_content = ''foo\<newline>bar foo'', tab_modified = m1\<rparr>,
      \<lparr>tab_id = 2, tab_name = name2, tab_content = ''baz'', tab_modified = m2\<rparr>] ''foo'' False False =
     (2, [(\<lparr>tab_id = 1, tab_name = name1, tab_content = ''foo\<newline>bar foo'', tab_modified = m1\<rparr>,
           [(1, ''foo''), (2, ''bar foo'')])])"
proof (intro conjI)
  show g: "searchInAllFiles ts searchTerm cs ww =
     (sum_list (map (\<lambda>t. length (matchingLines (tab_content t) searchTerm cs ww)) ts),
      map (\<lambda>t. (t, matchingLines (tab_content t) searchTerm cs ww))
        (filter (\<lambda>t. matchingLines (tab_content t) searchTerm cs ww \<noteq> []) ts))"
    for ts searchTerm cs ww
    by (simp add: searchInAllFiles_def scanTabs_matchingLines)
  show "distinct (map fst (matchingLines content searchTerm cs ww))"
    and "sorted (map fst (matchingLines content searchTerm cs ww))"
    using matchingLines_numbers [of content searchTerm cs ww] by (simp_all add: strict_sorted_iff)
  show "(lineNum, line) \<in> set (matchingLines content searchTerm cs ww) \<longleftrightarrow>
      1 \<le> lineNum \<and> lineNum \<le> length (split_str content [CHR 0x0A]) \<and>
      line = split_str content [CHR 0x0A] ! (lineNum - 1) \<and> lineMatches line searchTerm cs ww"
    by (rule matchingLines_member)
  have a: "matchingLines ''foo\<newline>bar foo'' ''foo'' False False = [(1, ''foo''), (2, ''bar foo'')]"
    by code_simp
  have b: "matchingLines ''baz'' ''foo'' False False = []" by code_simp
  show "searchInAllFiles
     [\<lparr>tab_id = 1, tab_name = name1, tab_content = ''foo\<newline>bar foo'', tab_modified = m1\<rparr>,
      \<lparr>tab_id = 2, tab_name = name2, tab_content = ''baz'', tab_modified = m2\<rparr>] ''foo'' False False =
     (2, [(\<lparr>tab_id = 1, tab_name = name1, tab_content = ''foo\<newline>bar foo'', tab_modified = m1\<rparr>,
           [(1, ''foo''), (2, ''bar foo'')])])"
    unfolding g by (simp add: a b)
qed

theorem searchInAllFiles_lines_per_tab_witness:
  "searchInAllFiles
     [\<lparr>tab_id = 1, tab_name = ''a.txt'', tab_content = ''foo foo\<newline>x\<newline>a foo.'', tab_modified = False\<rparr>,
      \<lparr>tab_id = 2, tab_name = ''b.txt'', tab_content = ''food'', tab_modified = False\<rparr>] ''foo'' True True =
     (2, [(\<lparr>tab_id = 1, tab_name = ''a.txt'', tab_content = ''foo foo\<newline>x\<newline>a foo.'', tab_modified = False\<rparr>,
           [(1, ''foo foo''), (3, ''a foo.'')])]) \<and>
   (3, ''a foo.'') \<in> set (matchingLines ''foo foo\<newline>x\<newline>a foo.'' ''foo'' True True)"
proof -
  have a: "matchingLines ''foo foo\<newline>x\<newline>a foo.'' ''foo'' True True = [(1, ''foo foo''), (3, ''a foo.'')]"
    by code_simp
  have b: "matchingLines ''food'' ''foo'' True True = []" by code_simp
  from searchInAllFiles_lines_per_tab
    [of "[\<lparr>tab_id = 1, tab_name = ''a.txt'', tab_content = ''foo foo\<newline>x\<newline>a foo.'', tab_modified = False\<rparr>,
      \<lparr>tab_id = 2, tab_name = ''b.txt'', tab_content = ''food'', tab_modified = False\<rparr>]" "''foo''" True True]
  show ?thesis by (simp add: a b)
qed

section \<open>The two whole-word tests\<close>

lemma findInText_whole_word_test:
  "findInText text searchTerm startPos cs ww =
     (let searchText = normCase cs text;
          searchFor = normCase cs searchTerm;
          index = indexOf searchText searchFor startPos
      in if ww \<and> index \<noteq> - 1 \<and> \<not> findInText_accepts searchText searchFor index
         then findInText text searchTerm (index + 1) cs ww
         else Some index)"
  by (subst findInText.simps) (simp add: findInText_accepts_def Let_def normCase_def)











section \<open>Backward search\<close>

lemma findInTextReverse_plain:
  "findInTextReverse text searchTerm startPos cs False =
     Some (resultOf (lastUpTo (inWindow text searchTerm cs (clampPos startPos (length text)))
                       (clampPos startPos (length text))))"
  by (subst findInTextReverse_step) (simp add: resultOf_def split: option.splits)

lemma findInTextReverse_wholeWord_sound:
  assumes "searchTerm \<noteq> []"
    and "findInTextReverse text searchTerm startPos cs True = Some (int k)"
  shows "qualifies text searchTerm cs True k \<and>
         inWindow text searchTerm cs (clampPos startPos (length text)) k"
  using assms(2)
proof (induction "clampPos startPos (length text)" arbitrary: startPos rule: less_induct)
  case less
  let ?n = "length text"
  let ?p = "clampPos startPos ?n"
  show ?case
  proof (cases "lastUpTo (inWindow text searchTerm cs ?p) ?p")
    case None
    with less.prems show ?thesis by (subst (asm) findInTextReverse_step) simp
  next
    case (Some c)
    then have c: "inWindow text searchTerm cs ?p c" unfolding lastUpTo_Some_iff by blast
    with assms(1) have cp: "c < ?p" by (rule inWindow_less)
    show ?thesis
    proof (cases "neighboursNonWord (normCase cs text) c (length searchTerm)")
      case True
      with Some less.prems have "k = c" by (subst (asm) findInTextReverse_step) simp
      with c True show ?thesis by (simp add: qualifies_def inWindow_def)
    next
      case False
      have cl: "clampPos (int c) ?n = c"
        using cp clampPos_le [of startPos ?n] by (simp add: clampPos_int)
      from Some False less.prems
      have "findInTextReverse text searchTerm (int c) cs True = Some (int k)"
        by (subst (asm) findInTextReverse_step) simp
      with less.hyps [of "int c"] cl cp
      have "qualifies text searchTerm cs True k \<and> inWindow text searchTerm cs c k" by simp
      with cp show ?thesis by (simp add: inWindow_def)
    qed
  qed
qed

text \<open>
  C8: without the whole-word option \<open>findInTextReverse\<close> returns the last occurrence
  that lies in the first \<open>startPos\<close> characters (\<open>findInTextReverse_plain\<close>), and with
  the option whatever it returns is an occurrence in that window whose neighbours in
  the full content are no word characters (\<open>findInTextReverse_wholeWord_sound\<close>). It
  need not be the last such occurrence: after a rejection the search goes on in the
  window that ends where the rejected match starts, which drops every occurrence that
  overlaps the rejected one. In \<open>a a a ab\<close> the pattern \<open>a a\<close> occurs at 0, 2 and 4; the
  one at 4 is followed by \<open>b\<close> and rejected, the one at 2 is a whole word inside the
  window, and the search from offset 8 returns 0. The forward search from offset 1
  does find the occurrence at 2.
\<close>

theorem findInTextReverse_skips_overlapping_match:
  "findInTextReverse ''a a a ab'' ''a a'' 8 True True = Some 0 \<and>
   occurrences ''a a a ab'' ''a a'' True True = [0, 2] \<and>
   inWindow ''a a a ab'' ''a a'' True 8 2 \<and>
   findInText ''a a a ab'' ''a a'' 1 True True = Some 2"
  by code_simp

end
